theory Spec2Isabelle
  imports Complex_Main "HOL-Library.Char_ord" "HOL-Library.List_Lexorder"
begin

section \<open>Near-duplicate pruning of sentence records (normalization.py)\<close>

text \<open>
  The module reads every \<open>(id, english_text)\<close> row of a table, derives a comparison key
  from each text, sorts the rows by that key, scans a bounded window of successors of
  every row for exact and fuzzy duplicates, and deletes the collected ids after a
  confirmation.  Texts are Python strings or \<open>None\<close> (a NULL column); they are modelled
  as \<open>string option\<close>, a string being the list of its code points below 256.  Python's
  \<open>len\<close> on \<open>None\<close> raises \<open>TypeError\<close>, which is the only failure of the scan.
\<close>

subsection \<open>Normalizer\<close>

datatype error = TypeError

text \<open>
  \<open>str.lower\<close> on the code points below 256: the ASCII capitals and the Latin-1 capitals
  (192 to 222 without the multiplication sign 215) move up by 32, every other
  character is unchanged.
\<close>

definition lower_char :: "char \<Rightarrow> char" where
  "lower_char c =
     (let n = (of_char c :: nat)
      in if (65 \<le> n \<and> n \<le> 90) \<or> (192 \<le> n \<and> n \<le> 222 \<and> n \<noteq> 215)
         then char_of (n + 32) else c)"

definition lower :: "string \<Rightarrow> string" where
  "lower s = map lower_char s"

text \<open>The character class \<open>[a-z0-9]\<close> of the regular expression.\<close>

definition is_key_char :: "char \<Rightarrow> bool" where
  "is_key_char c =
     (let n = (of_char c :: nat)
      in (97 \<le> n \<and> n \<le> 122) \<or> (48 \<le> n \<and> n \<le> 57))"

text \<open>
  \<open>normalize_text\<close>: a falsy text (\<open>None\<close> or the empty string) gives the empty key;
  otherwise \<open>re.sub(r'[^a-z0-9]', '', text.lower())\<close> removes every character outside
  the class.
\<close>

definition normalize_text :: "string option \<Rightarrow> string" where
  "normalize_text text =
     (case text of
        None \<Rightarrow> []
      | Some s \<Rightarrow> if s = [] then [] else filter is_key_char (lower s))"

subsection \<open>Candidates, sorting and the window scan\<close>

text \<open>
  Step 1 builds one dictionary \<open>{'id', 'text', 'clean'}\<close> per fetched row; step 2 sorts
  the list in place with \<open>data.sort(key=lambda x: x['clean'])\<close>.  Python's sort is stable
  and compares strings by code point, as \<open>sort_key\<close> does with the lexicographic order
  on character lists.
\<close>

type_synonym row = "int \<times> string option"

record candidate =
  row_id :: int
  row_text :: "string option"
  row_clean :: string

definition preprocess :: "row list \<Rightarrow> candidate list" where
  "preprocess rows =
     map (\<lambda>r. \<lparr>row_id = fst r, row_text = snd r, row_clean = normalize_text (snd r)\<rparr>) rows"

definition sort_data :: "candidate list \<Rightarrow> candidate list" where
  "sort_data data = sort_key row_clean data"

text \<open>
  The inner loop \<open>for j in range(1, WINDOW_SIZE + 1)\<close> for the row at index \<open>i\<close>, started
  at \<open>j = 1\<close>.  \<open>W\<close> is \<open>WINDOW_SIZE\<close>, \<open>thr\<close> is \<open>SIMILARITY_THRESHOLD\<close>, \<open>ratio\<close> is the
  library function \<open>Levenshtein.ratio\<close> and \<open>del\<close> is the set \<open>ids_to_delete\<close>.  The
  result is the set after the loop, or the exception that \<open>len\<close> raises on a \<open>None\<close> text.
\<close>

function neighbor_loop ::
  "int \<Rightarrow> real \<Rightarrow> (string \<Rightarrow> string \<Rightarrow> real) \<Rightarrow> candidate list \<Rightarrow> nat \<Rightarrow> nat \<Rightarrow> int set
     \<Rightarrow> error + int set" where
  "neighbor_loop W thr ratio data i j del =
     (if W < int j then Inr del
      else if length data \<le> i + j then Inr del
      else if row_id (data ! (i + j)) \<in> del
        then neighbor_loop W thr ratio data i (j + 1) del
      else if row_clean (data ! i) = row_clean (data ! (i + j)) then
        (case row_text (data ! i) of
           None \<Rightarrow> Inl TypeError
         | Some a \<Rightarrow>
            (case row_text (data ! (i + j)) of
               None \<Rightarrow> Inl TypeError
             | Some b \<Rightarrow>
                 if length b \<le> length a
                 then neighbor_loop W thr ratio data i (j + 1)
                        (insert (row_id (data ! (i + j))) del)
                 else Inr (insert (row_id (data ! i)) del)))
      else if thr \<le> ratio (row_clean (data ! i)) (row_clean (data ! (i + j)))
        then neighbor_loop W thr ratio data i (j + 1) (insert (row_id (data ! (i + j))) del)
      else neighbor_loop W thr ratio data i (j + 1) del)"
  by pat_completeness auto
termination
  by (relation "measure (\<lambda>(W, thr, ratio, data, i, j, del). length data - (i + j))") auto

text \<open>
  The outer loop \<open>for i in range(len(data))\<close>: a row whose id is already marked is
  skipped, any other row becomes the anchor of one inner loop.
\<close>

function scan_loop ::
  "int \<Rightarrow> real \<Rightarrow> (string \<Rightarrow> string \<Rightarrow> real) \<Rightarrow> candidate list \<Rightarrow> nat \<Rightarrow> int set
     \<Rightarrow> error + int set" where
  "scan_loop W thr ratio data i del =
     (if length data \<le> i then Inr del
      else if row_id (data ! i) \<in> del then scan_loop W thr ratio data (i + 1) del
      else (case neighbor_loop W thr ratio data i 1 del of
              Inl e \<Rightarrow> Inl e
            | Inr del' \<Rightarrow> scan_loop W thr ratio data (i + 1) del'))"
  by pat_completeness auto
termination
  by (relation "measure (\<lambda>(W, thr, ratio, data, i, del). length data - i)") auto

text \<open>Steps 1 to 3 of \<open>clean_database\<close>: the deletion set computed from the fetched rows.\<close>

definition find_duplicates ::
  "int \<Rightarrow> real \<Rightarrow> (string \<Rightarrow> string \<Rightarrow> real) \<Rightarrow> row list \<Rightarrow> error + int set" where
  "find_duplicates W thr ratio rows =
     scan_loop W thr ratio (sort_data (preprocess rows)) 0 {}"

declare neighbor_loop.simps [simp del]
declare scan_loop.simps [simp del]

text \<open>
  The same two loops as recursion over the rows still to be visited: the inner loop
  over the window of the anchor \<open>cur\<close>, the outer loop over the rows from the anchor on.
  \<open>neighbor_loop_window\<close> and \<open>scan_loop_rows\<close> below prove that the index loops compute
  exactly these.
\<close>

fun scan_neighbors ::
  "real \<Rightarrow> (string \<Rightarrow> string \<Rightarrow> real) \<Rightarrow> candidate \<Rightarrow> candidate list \<Rightarrow> int set
     \<Rightarrow> error + int set" where
  "scan_neighbors thr ratio cur [] del = Inr del"
| "scan_neighbors thr ratio cur (nxt # rest) del =
     (if row_id nxt \<in> del then scan_neighbors thr ratio cur rest del
      else if row_clean cur = row_clean nxt then
        (case row_text cur of
           None \<Rightarrow> Inl TypeError
         | Some a \<Rightarrow>
            (case row_text nxt of
               None \<Rightarrow> Inl TypeError
             | Some b \<Rightarrow>
                 if length b \<le> length a
                 then scan_neighbors thr ratio cur rest (insert (row_id nxt) del)
                 else Inr (insert (row_id cur) del)))
      else if thr \<le> ratio (row_clean cur) (row_clean nxt)
        then scan_neighbors thr ratio cur rest (insert (row_id nxt) del)
      else scan_neighbors thr ratio cur rest del)"

fun scan_rows ::
  "int \<Rightarrow> real \<Rightarrow> (string \<Rightarrow> string \<Rightarrow> real) \<Rightarrow> candidate list \<Rightarrow> int set
     \<Rightarrow> error + int set" where
  "scan_rows W thr ratio [] del = Inr del"
| "scan_rows W thr ratio (cur # rest) del =
     (if row_id cur \<in> del then scan_rows W thr ratio rest del
      else (case scan_neighbors thr ratio cur (take (nat W) rest) del of
              Inl e \<Rightarrow> Inl e
            | Inr del' \<Rightarrow> scan_rows W thr ratio rest del'))"

subsection \<open>The similarity ratio\<close>

text \<open>
  \<open>Levenshtein.ratio\<close> belongs to the imported package \<open>Levenshtein\<close>, not to the
  repository; the scan above takes it as a parameter.  \<open>Levenshtein_ratio\<close> is modelled
  from the documentation of that package: the ratio is computed from the sum of the
  two lengths and the edit distance in which an insertion and a deletion cost 1 and a
  substitution costs 2, as \<open>(lensum - ldist) / lensum\<close>, and is 1.0 when both strings
  are empty.  \<open>lev_edit_distance c\<close> is the edit distance with substitution cost \<open>c\<close>;
  with \<open>c = 1\<close> it is the standard Levenshtein distance.  The floating-point results
  are modelled by the real numbers they round.
\<close>

fun lev_edit_distance :: "nat \<Rightarrow> string \<Rightarrow> string \<Rightarrow> nat" where
  "lev_edit_distance c [] ys = length ys"
| "lev_edit_distance c (x # xs) [] = length (x # xs)"
| "lev_edit_distance c (x # xs) (y # ys) =
     min (min (lev_edit_distance c xs (y # ys) + 1) (lev_edit_distance c (x # xs) ys + 1))
         (lev_edit_distance c xs ys + (if x = y then 0 else c))"

definition Levenshtein_ratio :: "string \<Rightarrow> string \<Rightarrow> real" where
  "Levenshtein_ratio s1 s2 =
     (let lensum = length s1 + length s2
      in if lensum = 0 then 1
         else real (lensum - lev_edit_distance 2 s1 s2) / real lensum)"

text \<open>
  The formula of the specification, written from its words: one minus the standard
  edit distance over the larger of the two lengths and 1.
\<close>

definition editDistance :: "string \<Rightarrow> string \<Rightarrow> nat" where
  "editDistance a b = lev_edit_distance 1 a b"

definition spec_similarity :: "string \<Rightarrow> string \<Rightarrow> real" where
  "spec_similarity a b =
     1 - real (editDistance a b) / real (max (max (length a) (length b)) 1)"

subsection \<open>Step 4: confirmation and deletion\<close>

text \<open>
  The connection holds the table and, as a log, the parameter lists of the
  \<open>DELETE ... WHERE id IN (...)\<close> statements executed on it.  \<open>list(ids_to_delete)\<close>
  enumerates the set in an order Python does not specify; the ascending order stands
  for it.  \<open>user_input\<close> is what \<open>input\<close> returns; it is read only when the count is
  positive.  The statements are committed together after the last batch, so the
  resulting table is the committed one.
\<close>

record connection =
  table :: "row list"
  executed :: "int list list"

definition batch_size :: nat where
  "batch_size = 900"

definition execute_delete :: "int list \<Rightarrow> connection \<Rightarrow> connection" where
  "execute_delete batch conn =
     conn\<lparr>table := filter (\<lambda>r. fst r \<notin> set batch) (table conn),
          executed := executed conn @ [batch]\<rparr>"

function delete_loop :: "int list \<Rightarrow> nat \<Rightarrow> connection \<Rightarrow> connection" where
  "delete_loop id_list k conn =
     (if k < length id_list
      then delete_loop id_list (k + batch_size)
             (execute_delete (take batch_size (drop k id_list)) conn)
      else conn)"
  by pat_completeness auto
termination
  by (relation "measure (\<lambda>(id_list, k, conn). length id_list - k)")
     (auto simp: batch_size_def)

declare delete_loop.simps [simp del]

definition execute_deletion :: "int set \<Rightarrow> string \<Rightarrow> connection \<Rightarrow> connection" where
  "execute_deletion ids_to_delete user_input conn =
     (let count = card ids_to_delete
      in if 0 < count
         then (if user_input = ''YES''
               then delete_loop (sorted_list_of_set ids_to_delete) 0 conn
               else conn)
         else conn)"

definition clean_database ::
  "int \<Rightarrow> real \<Rightarrow> (string \<Rightarrow> string \<Rightarrow> real) \<Rightarrow> string \<Rightarrow> connection \<Rightarrow> error + connection" where
  "clean_database W thr ratio user_input conn =
     (case find_duplicates W thr ratio (table conn) of
        Inl e \<Rightarrow> Inl e
      | Inr ids_to_delete \<Rightarrow> Inr (execute_deletion ids_to_delete user_input conn))"

subsection \<open>The ordering named by the specification\<close>

text \<open>Ascending by key, rows with equal keys ascending by id.\<close>

definition key_then_id_ordered :: "candidate list \<Rightarrow> bool" where
  "key_then_id_ordered data =
     sorted_wrt (\<lambda>a b. row_clean a < row_clean b \<or>
                        (row_clean a = row_clean b \<and> row_id a \<le> row_id b)) data"

subsection \<open>Facts about the normalizer\<close>

lemma lower_char_key_char: "is_key_char c \<Longrightarrow> lower_char c = c"
  by (auto simp: is_key_char_def lower_char_def Let_def)

lemma filter_lower_fixed:
  "\<forall>c \<in> set s. is_key_char c \<Longrightarrow> filter is_key_char (lower s) = s"
  by (induction s) (simp_all add: lower_def lower_char_key_char)

lemma normalize_text_key_chars: "\<forall>c \<in> set (normalize_text t). is_key_char c"
  by (auto simp: normalize_text_def split: option.splits)

text \<open>
  C9.  Normalization is idempotent: normalizing the key produced from any text (a
  string or \<open>None\<close>) gives that key again.
\<close>

theorem normalize_text_idempotent:
  "normalize_text (Some (normalize_text x)) = normalize_text x"
proof -
  have "filter is_key_char (lower (normalize_text x)) = normalize_text x"
    by (rule filter_lower_fixed) (rule normalize_text_key_chars)
  then show ?thesis
    by (simp add: normalize_text_def)
qed

subsection \<open>The index loops are the recursion over the window\<close>

lemma neighbor_loop_window:
  "neighbor_loop W thr ratio data i j del =
     scan_neighbors thr ratio (data ! i) (take (nat (W + 1 - int j)) (drop (i + j) data)) del"
proof (induction W thr ratio data i j del rule: neighbor_loop.induct)
  case (1 W thr ratio data i j del)
  show ?case
  proof (cases "W < int j \<or> length data \<le> i + j")
    case True
    then show ?thesis
      by (subst neighbor_loop.simps) auto
  next
    case False
    then have a: "\<not> W < int j" and b: "\<not> length data \<le> i + j"
      by auto
    have "nat (W + 1 - int j) = Suc (nat (W + 1 - int (j + 1)))"
      using a by simp
    moreover have "drop (i + j) data = data ! (i + j) # drop (i + (j + 1)) data"
      using b by (simp add: Cons_nth_drop_Suc)
    ultimately have win:
      "take (nat (W + 1 - int j)) (drop (i + j) data) =
         data ! (i + j) # take (nat (W + 1 - int (j + 1))) (drop (i + (j + 1)) data)"
      by simp
    show ?thesis
      unfolding win
      by (subst neighbor_loop.simps) (use 1 a b in \<open>auto split: option.splits\<close>)
  qed
qed

lemma scan_loop_rows:
  "scan_loop W thr ratio data i del = scan_rows W thr ratio (drop i data) del"
proof (induction W thr ratio data i del rule: scan_loop.induct)
  case (1 W thr ratio data i del)
  show ?case
  proof (cases "length data \<le> i")
    case True
    then show ?thesis
      by (subst scan_loop.simps) simp
  next
    case False
    then have d: "drop i data = data ! i # drop (i + 1) data"
      by (simp add: Cons_nth_drop_Suc)
    have n: "neighbor_loop W thr ratio data i 1 del =
               scan_neighbors thr ratio (data ! i) (take (nat W) (drop (i + 1) data)) del"
      by (simp add: neighbor_loop_window)
    show ?thesis
      unfolding d
      by (subst scan_loop.simps) (use 1 False n in \<open>auto split: sum.splits\<close>)
  qed
qed

lemma find_duplicates_rows:
  "find_duplicates W thr ratio rows = scan_rows W thr ratio (sort_data (preprocess rows)) {}"
  by (simp add: find_duplicates_def scan_loop_rows)

subsection \<open>The deletion set only grows\<close>

lemma scan_neighbors_mono:
  "scan_neighbors thr ratio cur nbrs del = Inr del' \<Longrightarrow> del \<subseteq> del'"
proof (induction nbrs arbitrary: del)
  case Nil
  then show ?case by simp
next
  case (Cons nxt rest)
  then show ?case
    by (fastforce split: if_splits option.splits)
qed

lemma neighbor_loop_mono:
  "neighbor_loop W thr ratio data i j del = Inr del' \<Longrightarrow> del \<subseteq> del'"
  by (simp add: neighbor_loop_window scan_neighbors_mono)

subsection \<open>The two branches of a judgment\<close>

text \<open>
  C1.  A judged pair is the anchor at index \<open>i\<close> and the neighbor at index \<open>i + j\<close>,
  reached inside the window and the sequence with the neighbor's id unmarked.  When
  the two keys are equal and both texts are strings: if the anchor's text is at least
  as long as the neighbor's, the neighbor's id is inserted and the loop goes on with
  \<open>j + 1\<close> for the same anchor, so that every set the loop returns contains that id;
  otherwise the anchor's id is inserted and the loop returns at once.
\<close>

theorem exact_match_branch:
  assumes "int j \<le> W" and "i + j < length data"
    and "row_id (data ! (i + j)) \<notin> del"
    and "row_clean (data ! i) = row_clean (data ! (i + j))"
    and "row_text (data ! i) = Some a" and "row_text (data ! (i + j)) = Some b"
  shows "(length b \<le> length a \<longrightarrow>
            neighbor_loop W thr ratio data i j del =
              neighbor_loop W thr ratio data i (j + 1) (insert (row_id (data ! (i + j))) del)
          \<and> (\<forall>del'. neighbor_loop W thr ratio data i j del = Inr del'
                \<longrightarrow> row_id (data ! (i + j)) \<in> del'))
       \<and> (length a < length b \<longrightarrow>
            neighbor_loop W thr ratio data i j del = Inr (insert (row_id (data ! i)) del))"
proof -
  have step: "neighbor_loop W thr ratio data i j del =
      (if length b \<le> length a
       then neighbor_loop W thr ratio data i (j + 1) (insert (row_id (data ! (i + j))) del)
       else Inr (insert (row_id (data ! i)) del))"
    using assms by (subst neighbor_loop.simps) simp
  have "row_id (data ! (i + j)) \<in> del'"
    if "length b \<le> length a" and "neighbor_loop W thr ratio data i j del = Inr del'" for del'
    using that step neighbor_loop_mono [of W thr ratio data i "j + 1" _ del'] by auto
  with step show ?thesis
    by auto
qed

theorem exact_match_branch_witness:
  "neighbor_loop 10 (9 / 10) Levenshtein_ratio
     [\<lparr>row_id = 1, row_text = Some ''No pain, no gain!'', row_clean = ''nopainnogain''\<rparr>,
      \<lparr>row_id = 2, row_text = Some ''no pain no gain'', row_clean = ''nopainnogain''\<rparr>] 0 1 {}
   = Inr {2}
   \<and> neighbor_loop 10 (9 / 10) Levenshtein_ratio
     [\<lparr>row_id = 2, row_text = Some ''no pain no gain'', row_clean = ''nopainnogain''\<rparr>,
      \<lparr>row_id = 1, row_text = Some ''No pain, no gain!'', row_clean = ''nopainnogain''\<rparr>] 0 1 {}
   = Inr {2}"
  using exact_match_branch [of 1 10 0
      "[\<lparr>row_id = 1, row_text = Some ''No pain, no gain!'', row_clean = ''nopainnogain''\<rparr>,
        \<lparr>row_id = 2, row_text = Some ''no pain no gain'', row_clean = ''nopainnogain''\<rparr>]"
      "{}" "''No pain, no gain!''" "''no pain no gain''" "9 / 10" Levenshtein_ratio]
    exact_match_branch [of 1 10 0
      "[\<lparr>row_id = 2, row_text = Some ''no pain no gain'', row_clean = ''nopainnogain''\<rparr>,
        \<lparr>row_id = 1, row_text = Some ''No pain, no gain!'', row_clean = ''nopainnogain''\<rparr>]"
      "{}" "''no pain no gain''" "''No pain, no gain!''" "9 / 10" Levenshtein_ratio]
  by (simp add: neighbor_loop.simps [of _ _ _ _ _ "Suc (Suc 0)"])

text \<open>
  C2.  For a judged pair whose keys differ, the loop goes on with \<open>j + 1\<close> for the same
  anchor, whatever the ratio; the neighbor's id is inserted exactly when the ratio of
  the two keys is at least the threshold (equality counts, anything below does not),
  and nothing else is inserted by this judgment, so the anchor is kept.  After a
  match every set the loop returns contains the neighbor's id.
\<close>

theorem fuzzy_branch:
  assumes "int j \<le> W" and "i + j < length data"
    and "row_id (data ! (i + j)) \<notin> del"
    and "row_clean (data ! i) \<noteq> row_clean (data ! (i + j))"
  shows "neighbor_loop W thr ratio data i j del =
           neighbor_loop W thr ratio data i (j + 1)
             (if thr \<le> ratio (row_clean (data ! i)) (row_clean (data ! (i + j)))
              then insert (row_id (data ! (i + j))) del else del)
         \<and> (thr \<le> ratio (row_clean (data ! i)) (row_clean (data ! (i + j)))
              \<longrightarrow> (\<forall>del'. neighbor_loop W thr ratio data i j del = Inr del'
                     \<longrightarrow> row_id (data ! (i + j)) \<in> del'))"
proof -
  let ?n = "row_id (data ! (i + j))"
  let ?r = "ratio (row_clean (data ! i)) (row_clean (data ! (i + j)))"
  have step: "neighbor_loop W thr ratio data i j del =
      neighbor_loop W thr ratio data i (j + 1) (if thr \<le> ?r then insert ?n del else del)"
    using assms by (subst neighbor_loop.simps) simp
  have "?n \<in> del'"
    if "thr \<le> ?r" and "neighbor_loop W thr ratio data i j del = Inr del'" for del'
  proof -
    from that step have "neighbor_loop W thr ratio data i (j + 1) (insert ?n del) = Inr del'"
      by simp
    then have "insert ?n del \<subseteq> del'"
      by (rule neighbor_loop_mono)
    then show ?thesis
      by simp
  qed
  with step show ?thesis
    by blast
qed

theorem fuzzy_branch_witness:
  "neighbor_loop 10 (6 / 7) Levenshtein_ratio
     [\<lparr>row_id = 2, row_text = Some ''Dog'', row_clean = ''dog''\<rparr>,
      \<lparr>row_id = 1, row_text = Some ''Dogs!'', row_clean = ''dogs''\<rparr>] 0 1 {} = Inr {1}
   \<and> neighbor_loop 10 (7 / 8) Levenshtein_ratio
     [\<lparr>row_id = 2, row_text = Some ''Dog'', row_clean = ''dog''\<rparr>,
      \<lparr>row_id = 1, row_text = Some ''Dogs!'', row_clean = ''dogs''\<rparr>] 0 1 {} = Inr {}"
proof -
  have r: "Levenshtein_ratio ''dog'' ''dogs'' = 6 / 7"
    by (simp add: Levenshtein_ratio_def)
  show ?thesis
    using fuzzy_branch [of 1 10 0
        "[\<lparr>row_id = 2, row_text = Some ''Dog'', row_clean = ''dog''\<rparr>,
          \<lparr>row_id = 1, row_text = Some ''Dogs!'', row_clean = ''dogs''\<rparr>]"
        "{}" "6 / 7" Levenshtein_ratio]
      fuzzy_branch [of 1 10 0
        "[\<lparr>row_id = 2, row_text = Some ''Dog'', row_clean = ''dog''\<rparr>,
          \<lparr>row_id = 1, row_text = Some ''Dogs!'', row_clean = ''dogs''\<rparr>]"
        "{}" "7 / 8" Levenshtein_ratio]
    by (simp add: r neighbor_loop.simps [of _ _ _ _ _ "Suc (Suc 0)"])
qed

subsection \<open>Two records with one key\<close>

lemma sort_data_two_equal:
  "row_clean a = row_clean b \<Longrightarrow> sort_data [a, b] = [a, b]"
  by (simp add: sort_data_def)

text \<open>
  C6.  The input is exactly two rows whose texts are strings with the same key, and
  the window is at least 1.  The pass returns a set with one id: the id of the row
  with the strictly shorter text, and for texts of equal length the id of the row
  that arrived second.
\<close>

theorem two_duplicates_one_deleted:
  assumes "1 \<le> W" and "normalize_text (Some t1) = normalize_text (Some t2)"
  shows "find_duplicates W thr ratio [(id1, Some t1), (id2, Some t2)] =
           Inr {if length t1 < length t2 then id1 else id2}"
proof -
  have "take (nat W) [x] = [x]" for x :: candidate
    using assms(1) by (cases "nat W") auto
  then show ?thesis
    using assms(2)
    by (simp add: find_duplicates_rows preprocess_def sort_data_two_equal)
qed

theorem two_duplicates_one_deleted_witness:
  "find_duplicates 10 (9 / 10) Levenshtein_ratio
     [(1, Some ''No pain, no gain!''), (2, Some ''no pain no gain'')] = Inr {2}
   \<and> find_duplicates 10 (9 / 10) Levenshtein_ratio
     [(1, Some ''no pain no gain''), (2, Some ''No pain, no gain!'')] = Inr {1}"
proof -
  have k: "normalize_text (Some ''No pain, no gain!'') = normalize_text (Some ''no pain no gain'')"
    by code_simp
  show ?thesis
    using two_duplicates_one_deleted [of 10 "''No pain, no gain!''" "''no pain no gain''"
        "9 / 10" Levenshtein_ratio 1 2, OF _ k]
      two_duplicates_one_deleted [of 10 "''no pain no gain''" "''No pain, no gain!''"
        "9 / 10" Levenshtein_ratio 1 2, OF _ k [symmetric]]
    by simp
qed

subsection \<open>Every insertion leaves a survivor\<close>

text \<open>
  One inner loop, for an anchor that is unmarked and whose id differs from those of its
  neighbors: every id it inserts is the anchor's or a neighbor's, and after the loop
  the anchor or one of the neighbors is unmarked.
\<close>

lemma scan_neighbors_Cons_cases:
  assumes "scan_neighbors thr ratio cur (nxt # rest) del = Inr del'"
  shows "scan_neighbors thr ratio cur rest del = Inr del'
       \<or> (row_id nxt \<notin> del
            \<and> (row_clean cur = row_clean nxt
                 \<or> thr \<le> ratio (row_clean cur) (row_clean nxt))
            \<and> scan_neighbors thr ratio cur rest (insert (row_id nxt) del) = Inr del')
       \<or> (row_id nxt \<notin> del \<and> row_clean cur = row_clean nxt
            \<and> del' = insert (row_id cur) del)"
  using assms by (simp split: if_splits option.splits)

lemma scan_neighbors_survivor:
  assumes "scan_neighbors thr ratio cur nbrs del = Inr del'"
    and "row_id cur \<notin> del" and "row_id cur \<notin> row_id ` set nbrs"
  shows "del' \<subseteq> del \<union> insert (row_id cur) (row_id ` set nbrs)
         \<and> (\<exists>y \<in> insert (row_id cur) (row_id ` set nbrs). y \<notin> del')"
  using assms
proof (induction nbrs arbitrary: del)
  case Nil
  then have "del' = del"
    by simp
  with Nil.prems(2) show ?case
    by blast
next
  case (Cons nxt rest)
  have ne: "row_id nxt \<noteq> row_id cur"
    using Cons.prems(3) by auto
  have rest: "row_id cur \<notin> row_id ` set rest"
    using Cons.prems(3) by auto
  consider (skip) "scan_neighbors thr ratio cur rest del = Inr del'"
    | (add) "row_id nxt \<notin> del"
        "scan_neighbors thr ratio cur rest (insert (row_id nxt) del) = Inr del'"
    | (stop) "row_id nxt \<notin> del" "del' = insert (row_id cur) del"
    using scan_neighbors_Cons_cases [OF Cons.prems(1)] by blast
  then show ?case
  proof cases
    case skip
    from Cons.IH [OF skip Cons.prems(2) rest] show ?thesis
      by auto
  next
    case add
    have "row_id cur \<notin> insert (row_id nxt) del"
      using ne Cons.prems(2) by auto
    from Cons.IH [OF add(2) this rest] show ?thesis
      by auto
  next
    case stop
    then have "row_id nxt \<notin> del'"
      using ne by auto
    with stop show ?thesis
      by auto
  qed
qed

lemma scan_rows_survivor:
  assumes "scan_rows W thr ratio rows del = Inr del'"
    and "distinct (map row_id rows)"
    and "row_id ` set rows \<subseteq> S" and "del \<subseteq> S" and "\<exists>y \<in> S. y \<notin> del"
  shows "del' \<subseteq> S \<and> (\<exists>y \<in> S. y \<notin> del')"
  using assms
proof (induction rows arbitrary: del)
  case Nil
  then show ?case by simp
next
  case (Cons cur rest)
  have d: "distinct (map row_id rest)" and s: "row_id ` set rest \<subseteq> S"
    using Cons.prems(2,3) by auto
  show ?case
  proof (cases "row_id cur \<in> del")
    case True
    with Cons.prems(1) have "scan_rows W thr ratio rest del = Inr del'"
      by simp
    from Cons.IH [OF this d s Cons.prems(4,5)] show ?thesis .
  next
    case False
    with Cons.prems(1) obtain d1 where
      n: "scan_neighbors thr ratio cur (take (nat W) rest) del = Inr d1"
      and r: "scan_rows W thr ratio rest d1 = Inr del'"
      by (auto split: sum.splits)
    have sub: "row_id ` set (take (nat W) rest) \<subseteq> row_id ` set rest"
      using set_take_subset [of "nat W" rest] by auto
    have "row_id cur \<notin> row_id ` set rest"
      using Cons.prems(2) by auto
    with sub have "row_id cur \<notin> row_id ` set (take (nat W) rest)"
      by auto
    from scan_neighbors_survivor [OF n False this]
    have a: "d1 \<subseteq> del \<union> insert (row_id cur) (row_id ` set (take (nat W) rest))"
      and b: "\<exists>y \<in> insert (row_id cur) (row_id ` set (take (nat W) rest)). y \<notin> d1"
      by auto
    have w: "insert (row_id cur) (row_id ` set (take (nat W) rest)) \<subseteq> S"
      using sub s Cons.prems(3) by auto
    have "d1 \<subseteq> S"
      using a w Cons.prems(4) by blast
    moreover have "\<exists>y \<in> S. y \<notin> d1"
      using b w by blast
    ultimately have "d1 \<subseteq> S" and "\<exists>y \<in> S. y \<notin> d1" .
    from Cons.IH [OF r d s this] show ?thesis .
  qed
qed

subsection \<open>The scan returns when no text is NULL\<close>

lemma scan_neighbors_returns:
  assumes "row_text cur = Some a" and "\<forall>c \<in> set nbrs. row_text c \<noteq> None"
  shows "\<exists>del'. scan_neighbors thr ratio cur nbrs del = Inr del'"
  using assms(2)
proof (induction nbrs arbitrary: del)
  case Nil
  show ?case by simp
next
  case (Cons nxt rest)
  from Cons.prems obtain b where b: "row_text nxt = Some b"
    by auto
  from Cons.prems have rest: "\<forall>c \<in> set rest. row_text c \<noteq> None"
    by simp
  obtain d1 where d1: "scan_neighbors thr ratio cur rest del = Inr d1"
    using Cons.IH [OF rest, of del] by blast
  obtain d2 where d2:
    "scan_neighbors thr ratio cur rest (insert (row_id nxt) del) = Inr d2"
    using Cons.IH [OF rest, of "insert (row_id nxt) del"] by blast
  show ?case
    by (simp add: assms(1) b d1 d2)
qed

lemma scan_rows_returns:
  assumes "\<forall>c \<in> set rows. row_text c \<noteq> None"
  shows "\<exists>del'. scan_rows W thr ratio rows del = Inr del'"
  using assms
proof (induction rows arbitrary: del)
  case Nil
  show ?case by simp
next
  case (Cons cur rest)
  from Cons.prems obtain a where a: "row_text cur = Some a"
    by auto
  from Cons.prems have rest: "\<forall>c \<in> set rest. row_text c \<noteq> None"
    by simp
  then have "\<forall>c \<in> set (take (nat W) rest). row_text c \<noteq> None"
    using set_take_subset [of "nat W" rest] by blast
  from scan_neighbors_returns [OF a this] obtain d1 where
    d1: "scan_neighbors thr ratio cur (take (nat W) rest) del = Inr d1"
    by blast
  obtain d2 where d2: "scan_rows W thr ratio rest del = Inr d2"
    using Cons.IH [OF rest, of del] by blast
  obtain d3 where d3: "scan_rows W thr ratio rest d1 = Inr d3"
    using Cons.IH [OF rest, of d1] by blast
  show ?case
    by (simp add: d1 d2 d3)
qed

subsection \<open>Ids and texts of the sorted candidates\<close>

lemma row_id_preprocess: "map row_id (preprocess rows) = map fst rows"
  by (simp add: preprocess_def comp_def)

lemma set_sort_data: "set (sort_data data) = set data"
  by (simp add: sort_data_def)

lemma distinct_ids_sort_data:
  "distinct (map row_id (sort_data data)) = distinct (map row_id data)"
  by (simp add: distinct_map sort_data_def)

lemma ids_sorted_candidates:
  "row_id ` set (sort_data (preprocess rows)) = fst ` set rows"
proof -
  have "row_id ` set (preprocess rows) = set (map row_id (preprocess rows))"
    by simp
  then show ?thesis
    by (simp only: set_sort_data row_id_preprocess) simp
qed

lemma texts_sorted_candidates:
  "\<forall>r \<in> set rows. snd r \<noteq> None
     \<Longrightarrow> \<forall>c \<in> set (sort_data (preprocess rows)). row_text c \<noteq> None"
  by (auto simp: set_sort_data preprocess_def)

lemma find_duplicates_returns:
  "\<forall>r \<in> set rows. snd r \<noteq> None \<Longrightarrow> \<exists>del. find_duplicates W thr ratio rows = Inr del"
  unfolding find_duplicates_rows
  by (rule scan_rows_returns) (rule texts_sorted_candidates)

lemma scan_neighbors_ids:
  "scan_neighbors thr ratio cur nbrs del = Inr del'
     \<Longrightarrow> del' \<subseteq> del \<union> insert (row_id cur) (row_id ` set nbrs)"
proof (induction nbrs arbitrary: del)
  case Nil
  then have "del' = del"
    by simp
  then show ?case
    by blast
next
  case (Cons nxt rest)
  consider (skip) "scan_neighbors thr ratio cur rest del = Inr del'"
    | (add) "scan_neighbors thr ratio cur rest (insert (row_id nxt) del) = Inr del'"
    | (stop) "del' = insert (row_id cur) del"
    using scan_neighbors_Cons_cases [OF Cons.prems] by blast
  then show ?case
  proof cases
    case skip
    from Cons.IH [OF skip] show ?thesis by auto
  next
    case add
    from Cons.IH [OF add] show ?thesis by auto
  next
    case stop
    then show ?thesis by auto
  qed
qed

lemma scan_rows_ids:
  "scan_rows W thr ratio rows del = Inr del' \<Longrightarrow> del' \<subseteq> del \<union> row_id ` set rows"
proof (induction rows arbitrary: del)
  case Nil
  then have "del' = del"
    by simp
  then show ?case
    by blast
next
  case (Cons cur rest)
  show ?case
  proof (cases "row_id cur \<in> del")
    case True
    with Cons.prems have "scan_rows W thr ratio rest del = Inr del'"
      by simp
    from Cons.IH [OF this] show ?thesis
      by auto
  next
    case False
    with Cons.prems obtain d1 where
      n: "scan_neighbors thr ratio cur (take (nat W) rest) del = Inr d1"
      and r: "scan_rows W thr ratio rest d1 = Inr del'"
      by (auto split: sum.splits)
    have "d1 \<subseteq> del \<union> insert (row_id cur) (row_id ` set rest)"
      using scan_neighbors_ids [OF n] set_take_subset [of "nat W" rest] by blast
    moreover have "del' \<subseteq> d1 \<union> row_id ` set rest"
      by (rule Cons.IH [OF r])
    ultimately show ?thesis
      by auto
  qed
qed

lemma find_duplicates_subset:
  assumes "find_duplicates W thr ratio rows = Inr del"
  shows "del \<subseteq> fst ` set rows"
  using scan_rows_ids [of W thr ratio "sort_data (preprocess rows)" "{}" del] assms
  by (simp add: find_duplicates_rows ids_sorted_candidates)

text \<open>
  C10.  For a non-empty input with pairwise distinct ids, every deletion set the pass
  returns is a strict subset of the input ids; and the pass does return one when no
  text is NULL.
\<close>

theorem deletion_set_strict_subset:
  assumes "rows \<noteq> []" and "distinct (map fst rows)"
  shows "(\<forall>del. find_duplicates W thr ratio rows = Inr del \<longrightarrow> del \<subset> fst ` set rows)
       \<and> ((\<forall>r \<in> set rows. snd r \<noteq> None) \<longrightarrow> (\<exists>del. find_duplicates W thr ratio rows = Inr del))"
proof -
  let ?data = "sort_data (preprocess rows)"
  let ?S = "fst ` set rows"
  have d: "distinct (map row_id ?data)"
    using assms(2) by (simp add: distinct_ids_sort_data row_id_preprocess)
  have s: "row_id ` set ?data \<subseteq> ?S"
    by (simp add: ids_sorted_candidates)
  have e: "\<exists>y \<in> ?S. y \<notin> {}"
    using assms(1) by (cases rows) auto
  have "del \<subset> ?S" if "find_duplicates W thr ratio rows = Inr del" for del
  proof -
    from that have "scan_rows W thr ratio ?data {} = Inr del"
      by (simp add: find_duplicates_rows)
    from scan_rows_survivor [OF this d s _ e] show ?thesis
      by auto
  qed
  then show ?thesis
    using find_duplicates_returns by blast
qed

theorem deletion_set_strict_subset_witness:
  "find_duplicates 10 (9 / 10) Levenshtein_ratio
     [(1, Some ''Go!''), (2, Some ''go''), (3, Some ''GO'')] = Inr {2, 3}
   \<and> {2, 3} \<subset> fst ` set [(1 :: int, Some ''Go!''), (2, Some ''go''), (3, Some ''GO'')]"
proof -
  have v: "find_duplicates 10 (9 / 10) Levenshtein_ratio
     [(1, Some ''Go!''), (2, Some ''go''), (3, Some ''GO'')] = Inr {2, 3}"
    by code_simp
  show ?thesis
    using deletion_set_strict_subset [of
        "[(1, Some ''Go!''), (2, Some ''go''), (3, Some ''GO'')]"
        10 "9 / 10" Levenshtein_ratio] v
    by simp
qed

subsection \<open>Configuration values are used as they are\<close>

lemma scan_rows_no_window:
  "W \<le> 0 \<Longrightarrow> scan_rows W thr ratio rows del = Inr del"
  by (induction rows) simp_all

text \<open>
  C7 fails on the code: \<open>clean_database\<close> never inspects \<open>WINDOW_SIZE\<close> or
  \<open>SIMILARITY_THRESHOLD\<close> before it fetches the rows, and no configuration error
  exists.  With window size 0, with threshold 2 and with threshold -1 the pass reads
  the rows and returns a deletion set.
\<close>

theorem configuration_not_rejected:
  "find_duplicates 0 (9 / 10) Levenshtein_ratio [(1, Some ''go''), (2, Some ''go'')] = Inr {}
   \<and> find_duplicates 10 2 Levenshtein_ratio [(1, Some ''go''), (2, Some ''go'')] = Inr {2}
   \<and> find_duplicates 10 (- 1) Levenshtein_ratio [(1, Some ''a''), (2, Some ''b'')] = Inr {2}"
  by code_simp

text \<open>
  C7 as amended.  The pass runs with whatever window size and threshold it is given:
  it returns a deletion set whenever no text is NULL, and with a window size of 0 or
  less it judges no pair and returns the empty set.
\<close>

theorem configuration_used_unchecked:
  "(W \<le> 0 \<longrightarrow> find_duplicates W thr ratio rows = Inr {})
   \<and> ((\<forall>r \<in> set rows. snd r \<noteq> None)
        \<longrightarrow> (\<exists>del. find_duplicates W thr ratio rows = Inr del))"
  using find_duplicates_returns [of rows W thr ratio]
  by (simp add: find_duplicates_rows scan_rows_no_window)

theorem configuration_used_unchecked_witness:
  "find_duplicates (- 3) 2 Levenshtein_ratio [(1, Some ''go''), (2, Some ''go'')] = Inr {}
   \<and> (\<exists>del. find_duplicates 10 2 Levenshtein_ratio [(1, Some ''go''), (2, Some ''go'')]
               = Inr del)"
  using configuration_used_unchecked [of "- 3" 2 Levenshtein_ratio
      "[(1, Some ''go''), (2, Some ''go'')]"]
    configuration_used_unchecked [of 10 2 Levenshtein_ratio
      "[(1, Some ''go''), (2, Some ''go'')]"]
  by simp

subsection \<open>The order produced by the sort\<close>

lemma insort_key_then_id:
  assumes "key_then_id_ordered ys" and "\<forall>y \<in> set ys. row_id x \<le> row_id y"
  shows "key_then_id_ordered (insort_key row_clean x ys)"
  using assms
proof (induction ys)
  case Nil
  then show ?case
    by (simp add: key_then_id_ordered_def)
next
  case (Cons y ys)
  show ?case
  proof (cases "row_clean x \<le> row_clean y")
    case True
    have "row_clean x < row_clean z \<or> row_clean x = row_clean z \<and> row_id x \<le> row_id z"
      if "z \<in> set (y # ys)" for z
    proof -
      have "row_clean y \<le> row_clean z"
        using that Cons.prems(1) by (auto simp: key_then_id_ordered_def)
      with True have "row_clean x \<le> row_clean z"
        by (rule order_trans)
      with that Cons.prems(2) show ?thesis
        by (auto simp: le_less)
    qed
    with True Cons.prems(1) show ?thesis
      by (simp add: key_then_id_ordered_def)
  next
    case False
    have "key_then_id_ordered (insort_key row_clean x ys)"
      using Cons by (simp add: key_then_id_ordered_def)
    with False Cons.prems(1) show ?thesis
      by (auto simp: key_then_id_ordered_def set_insort_key)
  qed
qed

lemma sort_data_key_then_id:
  "sorted (map row_id data) \<Longrightarrow> key_then_id_ordered (sort_data data)"
proof (induction data)
  case Nil
  then show ?case
    by (simp add: key_then_id_ordered_def sort_data_def)
next
  case (Cons x xs)
  have "key_then_id_ordered (sort_data xs)"
    using Cons by simp
  moreover have "\<forall>y \<in> set (sort_data xs). row_id x \<le> row_id y"
    using Cons.prems by (simp add: sort_data_def)
  ultimately have "key_then_id_ordered (insort_key row_clean x (sort_data xs))"
    by (rule insort_key_then_id)
  then show ?case
    by (simp add: sort_data_def)
qed

text \<open>
  C4 fails on the code: the sort key is the canonical key alone, so two rows with one
  key stay in the order in which they arrived, here with id 2 before id 1.
\<close>

theorem ties_not_broken_by_id:
  "\<not> key_then_id_ordered (sort_data (preprocess [(2, Some ''go''), (1, Some ''Go!'')]))"
  by code_simp

text \<open>
  C4 as amended.  The scan order is ascending by canonical key, and rows with equal
  keys keep their arrival order; ties are therefore ascending by id when the rows
  arrive in ascending id order.
\<close>

theorem scan_order_stable:
  "sorted (map row_clean (sort_data (preprocess rows)))
   \<and> (\<forall>k. filter (\<lambda>c. row_clean c = k) (sort_data (preprocess rows))
           = filter (\<lambda>c. row_clean c = k) (preprocess rows))
   \<and> (sorted (map fst rows) \<longrightarrow> key_then_id_ordered (sort_data (preprocess rows)))"
  using sort_data_key_then_id [of "preprocess rows"]
  by (simp add: sort_data_def sort_key_stable row_id_preprocess)

theorem scan_order_stable_witness:
  "key_then_id_ordered (sort_data (preprocess [(1, Some ''Go!''), (2, Some ''go'')]))"
  using scan_order_stable [of "[(1, Some ''Go!''), (2, Some ''go'')]"]
  by simp

subsection \<open>The batched deletion\<close>

lemma delete_loop_table:
  "table (delete_loop id_list k conn) =
     filter (\<lambda>r. fst r \<notin> set (drop k id_list)) (table conn)"
proof (induction id_list k conn rule: delete_loop.induct)
  case (1 id_list k conn)
  show ?case
  proof (cases "k < length id_list")
    case True
    have "set (drop k id_list) =
            set (take batch_size (drop k id_list)) \<union> set (drop (k + batch_size) id_list)"
      by (metis append_take_drop_id drop_drop set_append add.commute)
    with True 1 show ?thesis
      by (subst delete_loop.simps) (auto simp: execute_delete_def)
  next
    case False
    then show ?thesis
      by (subst delete_loop.simps) simp
  qed
qed

lemma delete_loop_executed:
  "\<exists>batches. executed (delete_loop id_list k conn) = executed conn @ batches
     \<and> (batches = [] \<longleftrightarrow> length id_list \<le> k)"
proof (induction id_list k conn rule: delete_loop.induct)
  case (1 id_list k conn)
  show ?case
  proof (cases "k < length id_list")
    case True
    with 1 obtain batches where
      "executed (delete_loop id_list (k + batch_size)
                  (execute_delete (take batch_size (drop k id_list)) conn))
         = executed (execute_delete (take batch_size (drop k id_list)) conn) @ batches"
      by blast
    with True show ?thesis
      by (subst delete_loop.simps) (simp add: execute_delete_def)
  next
    case False
    then show ?thesis
      by (subst delete_loop.simps) simp
  qed
qed

lemma execute_deletion_effect:
  assumes "finite ids"
  shows "table (execute_deletion ids user_input conn) =
           (if ids \<noteq> {} \<and> user_input = ''YES''
            then filter (\<lambda>r. fst r \<notin> ids) (table conn) else table conn)"
    and "executed (execute_deletion ids user_input conn) \<noteq> executed conn
           \<longleftrightarrow> ids \<noteq> {} \<and> user_input = ''YES''"
    and "\<not> (ids \<noteq> {} \<and> user_input = ''YES'') \<Longrightarrow> execute_deletion ids user_input conn = conn"
proof -
  have c: "0 < card ids \<longleftrightarrow> ids \<noteq> {}"
    using assms by (simp add: card_gt_0_iff)
  show "table (execute_deletion ids user_input conn) =
           (if ids \<noteq> {} \<and> user_input = ''YES''
            then filter (\<lambda>r. fst r \<notin> ids) (table conn) else table conn)"
    using assms by (simp add: execute_deletion_def c delete_loop_table)
  obtain batches where
    b: "executed (delete_loop (sorted_list_of_set ids) 0 conn) = executed conn @ batches"
    and e: "batches = [] \<longleftrightarrow> length (sorted_list_of_set ids) \<le> 0"
    using delete_loop_executed [of "sorted_list_of_set ids" 0 conn] by blast
  have "batches = [] \<longleftrightarrow> ids = {}"
    using e assms by simp
  with b show "executed (execute_deletion ids user_input conn) \<noteq> executed conn
           \<longleftrightarrow> ids \<noteq> {} \<and> user_input = ''YES''"
    by (simp add: execute_deletion_def c)
  show "execute_deletion ids user_input conn = conn"
    if "\<not> (ids \<noteq> {} \<and> user_input = ''YES'')"
    using that by (auto simp: execute_deletion_def c)
qed

text \<open>
  C8.  When the scan returns the set \<open>ids\<close>, the pass executes a \<open>DELETE\<close> statement
  exactly when \<open>ids\<close> is not empty and the answer is the string \<open>YES\<close>; it then removes
  the rows whose id is in \<open>ids\<close>.  With any other answer, the empty one included, and
  with an empty set the connection is returned as it was.
\<close>

theorem deletion_needs_confirmation:
  assumes "find_duplicates W thr ratio (table conn) = Inr ids"
  shows "\<exists>conn'. clean_database W thr ratio user_input conn = Inr conn'
           \<and> (executed conn' \<noteq> executed conn \<longleftrightarrow> ids \<noteq> {} \<and> user_input = ''YES'')
           \<and> (ids \<noteq> {} \<and> user_input = ''YES''
                \<longrightarrow> table conn' = filter (\<lambda>r. fst r \<notin> ids) (table conn))
           \<and> (\<not> (ids \<noteq> {} \<and> user_input = ''YES'') \<longrightarrow> conn' = conn)"
proof -
  have "ids \<subseteq> fst ` set (table conn)"
    using assms by (rule find_duplicates_subset)
  then have f: "finite ids"
    by (rule finite_subset) simp
  let ?conn' = "execute_deletion ids user_input conn"
  have "clean_database W thr ratio user_input conn = Inr ?conn'"
    by (simp add: clean_database_def assms)
  moreover have "executed ?conn' \<noteq> executed conn \<longleftrightarrow> ids \<noteq> {} \<and> user_input = ''YES''"
    by (rule execute_deletion_effect(2) [OF f])
  moreover have "table ?conn' = filter (\<lambda>r. fst r \<notin> ids) (table conn)"
    if "ids \<noteq> {} \<and> user_input = ''YES''"
    using that execute_deletion_effect(1) [OF f, of user_input conn] by simp
  moreover have "?conn' = conn" if "\<not> (ids \<noteq> {} \<and> user_input = ''YES'')"
    using that by (rule execute_deletion_effect(3) [OF f])
  ultimately show ?thesis
    by blast
qed

theorem deletion_needs_confirmation_witness:
  "(\<exists>conn'. clean_database 10 (9 / 10) Levenshtein_ratio ''YES''
               \<lparr>table = [(1, Some ''Go!''), (2, Some ''go'')], executed = []\<rparr> = Inr conn'
            \<and> executed conn' \<noteq> [] \<and> table conn' = [(1, Some ''Go!'')])
   \<and> clean_database 10 (9 / 10) Levenshtein_ratio ''yes''
         \<lparr>table = [(1, Some ''Go!''), (2, Some ''go'')], executed = []\<rparr>
       = Inr \<lparr>table = [(1, Some ''Go!''), (2, Some ''go'')], executed = []\<rparr>
   \<and> clean_database 10 (9 / 10) Levenshtein_ratio []
         \<lparr>table = [(1, Some ''Go!''), (2, Some ''go'')], executed = []\<rparr>
       = Inr \<lparr>table = [(1, Some ''Go!''), (2, Some ''go'')], executed = []\<rparr>"
proof -
  have v: "find_duplicates 10 (9 / 10) Levenshtein_ratio
             (table \<lparr>table = [(1, Some ''Go!''), (2, Some ''go'')], executed = []\<rparr>)
           = Inr {2}"
    by code_simp
  show ?thesis
    using deletion_needs_confirmation [OF v, of "''YES''"]
      deletion_needs_confirmation [OF v, of "''yes''"]
      deletion_needs_confirmation [OF v, of "[]"]
    by simp
qed

subsection \<open>The ratio of the package and the formula of the specification\<close>

lemma lev_edit_distance_Nil2: "lev_edit_distance c xs [] = length xs"
  by (cases xs) simp_all

lemma lev_edit_distance_sym: "lev_edit_distance c xs ys = lev_edit_distance c ys xs"
proof (induction c xs ys rule: lev_edit_distance.induct)
  case (1 c ys)
  show ?case
    by (simp add: lev_edit_distance_Nil2)
next
  case (2 c x xs)
  show ?case
    by simp
next
  case (3 c x xs y ys)
  then show ?case
    by (simp add: min.commute min.left_commute eq_commute [of x y])
qed

lemma lev_edit_distance_le: "lev_edit_distance c xs ys \<le> length xs + length ys"
proof (induction c xs ys rule: lev_edit_distance.induct)
  case (3 c x xs y ys)
  have "lev_edit_distance c (x # xs) (y # ys) \<le> lev_edit_distance c xs (y # ys) + 1"
    by simp
  with "3.IH"(1) show ?case
    by simp
qed simp_all

text \<open>
  C3 fails on the code: for the keys \<open>dog\<close> and \<open>dogs\<close> the ratio of the package is
  6/7 (lengths 3 + 4, distance 1), while the formula of the specification gives
  1 - 1/4 = 3/4.
\<close>

theorem ratio_is_not_spec_similarity:
  "Levenshtein_ratio ''dog'' ''dogs'' = 6 / 7 \<and> spec_similarity ''dog'' ''dogs'' = 3 / 4
   \<and> Levenshtein_ratio ''dog'' ''dogs'' \<noteq> spec_similarity ''dog'' ''dogs''"
  by (simp add: Levenshtein_ratio_def spec_similarity_def editDistance_def)

text \<open>
  C3 as amended.  The ratio is 1 when both keys are empty and otherwise one minus the
  edit distance with substitution cost 2 over the sum of the two lengths; it is
  symmetric and lies between 0 and 1.
\<close>

theorem ratio_is_indel_similarity:
  "Levenshtein_ratio a b =
     (if a = [] \<and> b = [] then 1
      else 1 - real (lev_edit_distance 2 a b) / real (length a + length b))
   \<and> Levenshtein_ratio a b = Levenshtein_ratio b a
   \<and> 0 \<le> Levenshtein_ratio a b \<and> Levenshtein_ratio a b \<le> 1"
proof -
  let ?n = "length a + length b" and ?d = "lev_edit_distance 2 a b"
  have le: "?d \<le> ?n"
    by (rule lev_edit_distance_le)
  have s: "Levenshtein_ratio a b = Levenshtein_ratio b a"
    by (simp add: Levenshtein_ratio_def Let_def lev_edit_distance_sym [of 2 a b] add.commute)
  show ?thesis
  proof (cases "a = [] \<and> b = []")
    case True
    then have "Levenshtein_ratio a b = 1"
      by (simp add: Levenshtein_ratio_def)
    with True s show ?thesis
      by simp
  next
    case False
    then have n: "0 < ?n"
      by (cases a) auto
    then have pos: "0 < real ?n"
      by (simp only: of_nat_0_less_iff)
    then have r: "real ?n \<noteq> 0"
      by (rule less_imp_neq [symmetric])
    have dn: "real ?d \<le> real ?n"
      using le by (simp only: of_nat_le_iff)
    have "Levenshtein_ratio a b = real (?n - ?d) / real ?n"
      using n by (simp add: Levenshtein_ratio_def Let_def)
    also have "\<dots> = (real ?n - real ?d) / real ?n"
      using le by (simp only: of_nat_diff)
    also have "\<dots> = 1 - real ?d / real ?n"
      by (simp only: diff_divide_distrib divide_self [OF r])
    finally have f: "Levenshtein_ratio a b = 1 - real ?d / real ?n" .
    have "0 \<le> real ?d / real ?n"
      by (rule divide_nonneg_nonneg) simp_all
    moreover have "real ?d / real ?n \<le> 1"
      by (rule mult_imp_div_pos_le [OF pos]) (use dn in simp)
    ultimately have "0 \<le> Levenshtein_ratio a b" and "Levenshtein_ratio a b \<le> 1"
      unfolding f by linarith+
    with False f s show ?thesis
      by simp
  qed
qed

theorem ratio_is_indel_similarity_witness:
  "Levenshtein_ratio ''dog'' ''dogs'' = 1 - 1 / 7
   \<and> Levenshtein_ratio ''dogs'' ''dog'' = Levenshtein_ratio ''dog'' ''dogs''"
  using ratio_is_indel_similarity [of "''dog''" "''dogs''"]
    ratio_is_indel_similarity [of "''dogs''" "''dog''"]
  by simp

subsection \<open>Which ids one anchor can mark\<close>









subsection \<open>Two rows with one key, further apart than the window\<close>






end
